theory Spec2Isabelle
  imports Main "HOL-Library.Word"
begin

section \<open>Errors and options\<close>

text \<open>The sentinel errors of the package. A Go \<open>error\<close> result is an \<open>error option\<close>,
  \<open>None\<close> being \<open>nil\<close>.\<close>

datatype error =
  ErrPoolClosed | ErrPoolOverload | ErrInvalidPoolSize
  | ErrInvalidPoolExpiry | ErrInvalidPoolFunc | ErrTimeout

text \<open>A \<open>time.Duration\<close> and a reading of the monotonic clock are integers (nanoseconds).
  The panic handler and the logger only produce output and are left out of the record.\<close>

record Options =
  ExpiryDuration :: int
  PreAlloc :: bool
  MaxBlockingTasks :: int
  Nonblocking :: bool

datatype Option_fn =
  WithExpiryDuration int | WithPreAlloc bool | WithMaxBlockingTasks int | WithNonblocking bool

definition DefaultExpiryDuration :: int where
  "DefaultExpiryDuration = 10 * 1000000000"

fun apply_Option :: "Options \<Rightarrow> Option_fn \<Rightarrow> Options" where
  "apply_Option opts (WithExpiryDuration d) = opts\<lparr>ExpiryDuration := d\<rparr>"
| "apply_Option opts (WithPreAlloc b) = opts\<lparr>PreAlloc := b\<rparr>"
| "apply_Option opts (WithMaxBlockingTasks n) = opts\<lparr>MaxBlockingTasks := n\<rparr>"
| "apply_Option opts (WithNonblocking b) = opts\<lparr>Nonblocking := b\<rparr>"

definition NewOptions :: "Option_fn list \<Rightarrow> Options" where
  "NewOptions opts =
     foldl apply_Option
       \<lparr>ExpiryDuration = DefaultExpiryDuration, PreAlloc = False,
        MaxBlockingTasks = 0, Nonblocking = False\<rparr> opts"

section \<open>Future\<close>

text \<open>The result cell: \<open>result\<close> and \<open>err\<close> (both \<open>nil\<close> at first), the channel \<open>done\<close>
  (only ever closed, so the flag \<open>done_closed\<close>) and the \<open>sync.Once\<close> guard (a flag: has \<open>Do\<close> run).\<close>

record ('a, 'e) future =
  result :: "'a option"
  err :: "'e option"
  done_closed :: bool
  once :: bool

definition newFuture :: "('a, 'e) future" where
  "newFuture = \<lparr>result = None, err = None, done_closed = False, once = False\<rparr>"

definition setResult :: "'a option \<Rightarrow> 'e option \<Rightarrow> ('a, 'e) future \<Rightarrow> ('a, 'e) future" where
  "setResult r e f =
     (if once f then f
      else f\<lparr>result := r, err := e, done_closed := True, once := True\<rparr>)"

text \<open>\<open>Get\<close> receives from \<open>done\<close>: on a future that is not done it blocks (\<open>None\<close>), on a
  done one it returns the stored pair. It changes nothing in the future.\<close>

definition Get :: "('a, 'e) future \<Rightarrow> ('a option \<times> 'e option) option" where
  "Get f = (if done_closed f then Some (result f, err f) else None)"

definition IsDone :: "('a, 'e) future \<Rightarrow> bool" where
  "IsDone f = done_closed f"

text \<open>\<open>GetWithTimeout\<close> races \<open>done\<close> against a timer; \<open>fired\<close> says that the timer won.\<close>

definition GetWithTimeout :: "bool \<Rightarrow> ('a, error) future \<Rightarrow> ('a option \<times> error option) option" where
  "GetWithTimeout fired f =
     (if done_closed f \<and> \<not> fired then Some (result f, err f)
      else if fired then Some (None, Some ErrTimeout) else None)"

text \<open>The history of a future under a sequence of \<open>setResult\<close> calls: the state before
  the first call, then the state after each call.\<close>

fun history :: "('a, 'e) future \<Rightarrow> ('a option \<times> 'e option) list \<Rightarrow> ('a, 'e) future list" where
  "history f [] = [f]"
| "history f (c # cs) = f # history (setResult (fst c) (snd c) f) cs"

text \<open>An observer that calls \<open>Get\<close> when the future is in the first state of the list
  stays blocked while the states are not done and returns at the first done one;
  \<open>None\<close> when the list ends with the observer still blocked.\<close>

fun Get_blocking :: "('a, 'e) future list \<Rightarrow> ('a option \<times> 'e option) option" where
  "Get_blocking [] = None"
| "Get_blocking (f # fs) = (case Get f of Some p \<Rightarrow> Some p | None \<Rightarrow> Get_blocking fs)"

section \<open>Workers\<close>

text \<open>A work item is a callable; all that matters of it here is whether its body returns
  or panics. \<open>Wrapped i r e\<close> is the closure built by \<open>SubmitWithResult\<close> around a task that
  returns \<open>(r, e)\<close>: it stores the pair in future number \<open>i\<close>. A \<open>nil\<close> callable is \<open>None\<close>.
  For the function pool the item is the argument, and \<open>Returns\<close>/\<open>Panics\<close> say what the
  pool's function does on it.\<close>

datatype callable = Returns | Panics | Wrapped nat "int option" "string option"

text \<open>Where the goroutine started by \<open>run\<close> stands: at the head of its receive loop,
  inside the task, between the time stamp and the lock of \<open>putWorker\<close>, or gone.\<close>

datatype goroutine = Receiving | Executing callable | Stamped | Exited

text \<open>\<open>task\<close> is the content of the buffered channel and \<open>closed\<close> its closed flag.\<close>

record goWorker =
  task :: "callable option list"
  closed :: bool
  lastUsed :: int
  recycled :: int
  gor :: goroutine

definition workerChanCap :: nat where
  "workerChanCap = 1"

text \<open>Worker objects are shared by pointer between the store, the submitter and the
  worker's goroutine: a heap of worker objects, a pointer being an index. The code only
  holds pointers to objects it has allocated, that is, indices below the length of the
  heap.\<close>

type_synonym heap = "goWorker list"

definition recycle :: "goWorker \<Rightarrow> goWorker" where
  "recycle w = w\<lparr>recycled := 1\<rparr>"

definition finish :: "goWorker \<Rightarrow> goWorker" where
  "finish w = (recycle w)\<lparr>closed := True\<rparr>"

definition finish_at :: "heap \<Rightarrow> nat \<Rightarrow> heap" where
  "finish_at h w = h[w := finish (h ! w)]"

text \<open>A send on the channel: \<open>None\<close> when the sender would not get through (the buffer is
  full, or the channel is closed and the send panics).\<close>

definition chan_send :: "callable option \<Rightarrow> goWorker \<Rightarrow> goWorker option" where
  "chan_send t w =
     (if closed w \<or> workerChanCap \<le> length (task w) then None
      else Some (w\<lparr>task := task w @ [t]\<rparr>))"

section \<open>The stack store\<close>

text \<open>\<open>s_items\<close> is the live part of the slice (the slots behind it hold \<open>nil\<close>).\<close>

record workerStack =
  s_items :: "nat list"
  s_size :: int
  s_expiry :: "nat option list"

definition newWorkerStack :: "int \<Rightarrow> workerStack" where
  "newWorkerStack sz = \<lparr>s_items = [], s_size = sz, s_expiry = []\<rparr>"

definition s_len :: "workerStack \<Rightarrow> nat" where
  "s_len wq = length (s_items wq)"

definition s_isEmpty :: "workerStack \<Rightarrow> bool" where
  "s_isEmpty wq = (length (s_items wq) = 0)"

definition s_insert :: "nat \<Rightarrow> workerStack \<Rightarrow> error option \<times> workerStack" where
  "s_insert worker wq = (None, wq\<lparr>s_items := s_items wq @ [worker]\<rparr>)"

definition s_detach :: "workerStack \<Rightarrow> nat option \<times> workerStack" where
  "s_detach wq =
     (let l = length (s_items wq) in
      if l = 0 then (None, wq)
      else (Some (s_items wq ! (l - 1)), wq\<lparr>s_items := take (l - 1) (s_items wq)\<rparr>))"

text \<open>The scan of \<open>refresh\<close> for the first worker that has not expired.\<close>

function s_scan :: "heap \<Rightarrow> nat list \<Rightarrow> int \<Rightarrow> nat \<Rightarrow> nat" where
  "s_scan h xs expiryTime index =
     (if index < length xs \<and> lastUsed (h ! (xs ! index)) < expiryTime
      then s_scan h xs expiryTime (index + 1) else index)"
  by pat_completeness auto
termination
  by (relation "measure (\<lambda>(h, xs, e, i). length xs - i)") auto

declare s_scan.simps [simp del]

text \<open>\<open>refresh\<close> returns the indices of the reclaimed workers (\<open>nil\<close> is the empty list).\<close>

definition s_refresh :: "int \<Rightarrow> int \<Rightarrow> heap \<Rightarrow> workerStack \<Rightarrow> nat list \<times> workerStack \<times> heap" where
  "s_refresh now duration h wq =
     (let n = length (s_items wq) in
      if n = 0 then ([], wq, h)
      else
        let expiryTime = now - duration;
            index = s_scan h (s_items wq) expiryTime 0
        in if 0 < index
           then ([0..<index],
                 wq\<lparr>s_items := drop index (s_items wq), s_expiry := replicate index None\<rparr>,
                 foldl finish_at h (take index (s_items wq)))
           else ([], wq, h))"

definition s_reset :: "heap \<Rightarrow> workerStack \<Rightarrow> workerStack \<times> heap" where
  "s_reset h wq = (wq\<lparr>s_items := []\<rparr>, foldl finish_at h (s_items wq))"

section \<open>The ring store\<close>

record loopQueue =
  q_items :: "nat option list"
  q_head :: nat
  q_tail :: nat
  q_size :: nat
  isFull :: bool
  q_expiry :: "nat option list"

definition newWorkerLoopQueue :: "int \<Rightarrow> loopQueue" where
  "newWorkerLoopQueue sz =
     \<lparr>q_items = replicate (nat sz) None, q_head = 0, q_tail = 0, q_size = nat sz,
      isFull = False, q_expiry = []\<rparr>"

definition q_len :: "loopQueue \<Rightarrow> nat" where
  "q_len wq =
     (if isFull wq then q_size wq
      else if q_head wq \<le> q_tail wq then q_tail wq - q_head wq
      else q_size wq - q_head wq + q_tail wq)"

definition q_isEmpty :: "loopQueue \<Rightarrow> bool" where
  "q_isEmpty wq = (q_head wq = q_tail wq \<and> \<not> isFull wq)"

definition q_insert :: "nat \<Rightarrow> loopQueue \<Rightarrow> error option \<times> loopQueue" where
  "q_insert worker wq =
     (if isFull wq then (Some ErrPoolOverload, wq)
      else
        let t = q_tail wq + 1;
            t' = (if t = q_size wq then 0 else t)
        in (None, wq\<lparr>q_items := (q_items wq)[q_tail wq := Some worker], q_tail := t',
                     isFull := (t' = q_head wq)\<rparr>))"

text \<open>A read of a slot; an index outside the array, which the code never computes, reads
  as \<open>nil\<close>.\<close>

definition slot :: "nat option list \<Rightarrow> nat \<Rightarrow> nat option" where
  "slot xs i = (if i < length xs then xs ! i else None)"

definition q_detach :: "loopQueue \<Rightarrow> nat option \<times> loopQueue" where
  "q_detach wq =
     (if q_isEmpty wq then (None, wq)
      else
        let h = q_head wq + 1
        in (slot (q_items wq) (q_head wq),
            wq\<lparr>q_items := (q_items wq)[q_head wq := None],
               q_head := (if h = q_size wq then 0 else h), isFull := False\<rparr>))"

text \<open>The loop of the ring's \<open>refresh\<close>: the queue, the indices and the expired workers
  collected so far.\<close>

function q_scan :: "heap \<Rightarrow> int \<Rightarrow> loopQueue \<Rightarrow> nat list \<Rightarrow> nat list
    \<Rightarrow> loopQueue \<times> nat list \<times> nat list" where
  "q_scan h expiryTime wq indices exp =
     (if q_isEmpty wq then (wq, indices, exp)
      else case slot (q_items wq) (q_head wq) of
        None \<Rightarrow> (wq, indices, exp)
      | Some w \<Rightarrow>
          if expiryTime < lastUsed (h ! w) then (wq, indices, exp)
          else
            let hd' = q_head wq + 1
            in q_scan h expiryTime
                 (wq\<lparr>q_items := (q_items wq)[q_head wq := None],
                     q_head := (if hd' = q_size wq then 0 else hd'), isFull := False\<rparr>)
                 (indices @ [q_head wq]) (exp @ [w]))"
  by pat_completeness auto
termination
proof (relation "measure (\<lambda>(h, e, wq, i, x). length (filter (\<lambda>s. s \<noteq> None) (q_items wq)))")
  show "wf (measure (\<lambda>(h, e, wq, i, x). length (filter (\<lambda>s. s \<noteq> None) (q_items wq))))"
    by simp
next
  fix h :: heap and expiryTime :: int and wq :: loopQueue and indices exp :: "nat list"
    and w :: nat and hd' :: nat
  assume a: "slot (q_items wq) (q_head wq) = Some w"
  have lt: "q_head wq < length (q_items wq)"
    using a by (simp add: slot_def split: if_splits)
  have v: "q_items wq ! q_head wq = Some w"
    using a lt by (simp add: slot_def)
  have dec: "i < length xs \<Longrightarrow> xs ! i = Some w \<Longrightarrow>
      length (filter (\<lambda>s. s \<noteq> None) (xs[i := None])) < length (filter (\<lambda>s. s \<noteq> None) xs)"
    for xs :: "nat option list" and i
  proof (induction xs arbitrary: i)
    case Nil
    then show ?case by simp
  next
    case (Cons a xs)
    then show ?case by (cases i) auto
  qed
  from dec [OF lt v]
  show "((h, expiryTime,
        wq\<lparr>q_items := (q_items wq)[q_head wq := None],
           q_head := (if hd' = q_size wq then 0 else hd'), isFull := False\<rparr>,
        indices @ [q_head wq], exp @ [w]),
       (h, expiryTime, wq, indices, exp))
      \<in> measure (\<lambda>(h, e, wq, i, x). length (filter (\<lambda>s. s \<noteq> None) (q_items wq)))"
    by simp
qed

declare q_scan.simps [simp del]

definition q_refresh :: "int \<Rightarrow> int \<Rightarrow> heap \<Rightarrow> loopQueue \<Rightarrow> nat list \<times> loopQueue \<times> heap" where
  "q_refresh now duration h wq =
     (if q_isEmpty wq then ([], wq, h)
      else
        let expiryTime = now - duration
        in case q_scan h expiryTime (wq\<lparr>q_expiry := []\<rparr>) [] [] of
             (wq', indices, exp) \<Rightarrow>
               (indices, wq'\<lparr>q_expiry := replicate (length exp) None\<rparr>, foldl finish_at h exp))"

text \<open>The slots that \<open>reset\<close> walks over, in its order.\<close>

definition q_live :: "loopQueue \<Rightarrow> nat list" where
  "q_live wq =
     (if q_head wq < q_tail wq then [q_head wq..<q_tail wq]
      else [q_head wq..<q_size wq] @ [0..<q_tail wq])"

definition q_reset :: "heap \<Rightarrow> loopQueue \<Rightarrow> loopQueue \<times> heap" where
  "q_reset h wq =
     (if q_isEmpty wq then (wq, h)
      else
        (wq\<lparr>q_items := foldl (\<lambda>xs i. xs[i := None]) (q_items wq) (q_live wq),
            q_head := 0, q_tail := 0, isFull := False\<rparr>,
         foldl (\<lambda>h i. case slot (q_items wq) i of None \<Rightarrow> h | Some w \<Rightarrow> finish_at h w)
           h (q_live wq)))"

section \<open>The store interface\<close>

datatype workerQueue = Stack workerStack | Loop loopQueue

fun wq_len :: "workerQueue \<Rightarrow> nat" where
  "wq_len (Stack s) = s_len s"
| "wq_len (Loop q) = q_len q"

fun wq_isEmpty :: "workerQueue \<Rightarrow> bool" where
  "wq_isEmpty (Stack s) = s_isEmpty s"
| "wq_isEmpty (Loop q) = q_isEmpty q"

fun wq_insert :: "nat \<Rightarrow> workerQueue \<Rightarrow> error option \<times> workerQueue" where
  "wq_insert w (Stack s) = (case s_insert w s of (e, s') \<Rightarrow> (e, Stack s'))"
| "wq_insert w (Loop q) = (case q_insert w q of (e, q') \<Rightarrow> (e, Loop q'))"

fun wq_detach :: "workerQueue \<Rightarrow> nat option \<times> workerQueue" where
  "wq_detach (Stack s) = (case s_detach s of (w, s') \<Rightarrow> (w, Stack s'))"
| "wq_detach (Loop q) = (case q_detach q of (w, q') \<Rightarrow> (w, Loop q'))"

fun wq_refresh :: "int \<Rightarrow> int \<Rightarrow> heap \<Rightarrow> workerQueue \<Rightarrow> nat list \<times> workerQueue \<times> heap" where
  "wq_refresh now d h (Stack s) = (case s_refresh now d h s of (ix, s', h') \<Rightarrow> (ix, Stack s', h'))"
| "wq_refresh now d h (Loop q) = (case q_refresh now d h q of (ix, q', h') \<Rightarrow> (ix, Loop q', h'))"

fun wq_reset :: "heap \<Rightarrow> workerQueue \<Rightarrow> workerQueue \<times> heap" where
  "wq_reset h (Stack s) = (case s_reset h s of (s', h') \<Rightarrow> (Stack s', h'))"
| "wq_reset h (Loop q) = (case q_reset h q of (q', h') \<Rightarrow> (Loop q', h'))"

text \<open>The workers a store holds, head first.\<close>

fun wq_idle :: "workerQueue \<Rightarrow> nat list" where
  "wq_idle (Stack s) = s_items s"
| "wq_idle (Loop q) = List.map_filter (\<lambda>x. x) (q_items q)"

section \<open>The pool\<close>

definition CLOSED :: int where "CLOSED = 1"
definition OPENED :: int where "OPENED = 0"
definition queueSizeThreshold :: int where "queueSizeThreshold = 1000"

text \<open>The goroutine that runs \<open>cleanExpiredWorkers\<close>: ticking, returned (it has closed
  \<open>cleaningDone\<close>), or dead from the panic of \<open>time.NewTicker\<close>, which the Go library
  raises for an interval that is not positive.\<close>

datatype sweeper = Ticking | Stopped | Panicked

text \<open>A panic that nothing recovers ends the whole program; the operations below are
  not changed by it, and say what they would do.\<close>

definition NewTicker :: "int \<Rightarrow> sweeper" where
  "NewTicker d = (if d \<le> 0 then Panicked else Ticking)"

text \<open>The pool. \<open>capacity\<close>, \<open>running\<close>, \<open>state\<close> and \<open>waiting\<close> are the \<open>int32\<close> counters
  (as integers: none of them comes near the bounds of 32 bits in what follows).
  \<open>cleaner\<close> stands for the sweeper goroutine with its two channels, \<open>heap\<close> holds the
  worker objects handed out by \<open>workerPool\<close> (nothing is ever put back into that cache, so
  every \<open>Get\<close> builds a new object), \<open>futures\<close> the futures allocated so far. The
  condition variable is the two lists: \<open>parked\<close>, the submitters suspended in
  \<open>cond.Wait\<close>, each with the item it will hand over, oldest first; and \<open>woken\<close>, those
  that were notified and have not yet got the lock back.\<close>

record Pool =
  capacity :: int
  running :: int
  state :: int
  workers :: workerQueue
  options :: Options
  waiting :: int
  cleaner :: sweeper
  heap :: heap
  futures :: "(int, string) future list"
  parked :: "callable option list"
  woken :: "callable option list"

text \<open>The function pool has the same fields and \<open>poolFunc\<close>. Its methods are the same
  text as the generic pool's, so the definitions below are stated once, over every
  extension of \<open>Pool\<close>.\<close>

record 'f PoolWithFunc = Pool +
  poolFunc :: 'f

definition int32 :: "int \<Rightarrow> int" where
  "int32 n = sint (word_of_int n :: 32 word)"

definition NewPool :: "int \<Rightarrow> Option_fn list \<Rightarrow> error + Pool" where
  "NewPool sz opt_fns =
     (if sz = 0 then Inl ErrInvalidPoolSize
      else
        let opts = NewOptions opt_fns
        in if ExpiryDuration opts < 0 then Inl ErrInvalidPoolExpiry
           else Inr \<lparr>capacity = int32 sz, running = 0, state = OPENED,
                  workers =
                    (if sz = -1 then Stack (newWorkerStack 0)
                     else if sz < queueSizeThreshold
                       then (if PreAlloc opts then Stack (newWorkerStack sz)
                             else Stack (newWorkerStack 0))
                     else Loop (newWorkerLoopQueue sz)),
                  options = opts, waiting = 0,
                  cleaner = NewTicker (ExpiryDuration opts),
                  heap = [], futures = [], parked = [], woken = []\<rparr>)"

text \<open>\<open>pf\<close> is the callable, \<open>None\<close> being \<open>nil\<close>.\<close>

definition NewPoolWithFunc :: "int \<Rightarrow> 'f option \<Rightarrow> Option_fn list \<Rightarrow> error + 'f PoolWithFunc" where
  "NewPoolWithFunc sz pf opt_fns =
     (if sz = 0 then Inl ErrInvalidPoolSize
      else case pf of
        None \<Rightarrow> Inl ErrInvalidPoolFunc
      | Some f \<Rightarrow>
        let opts = NewOptions opt_fns
        in if ExpiryDuration opts < 0 then Inl ErrInvalidPoolExpiry
           else Inr \<lparr>capacity = int32 sz, running = 0, state = OPENED,
                  workers =
                    (if sz = -1 then Stack (newWorkerStack 0)
                     else if sz < queueSizeThreshold
                       then (if PreAlloc opts then Stack (newWorkerStack sz)
                             else Stack (newWorkerStack 0))
                     else Loop (newWorkerLoopQueue sz)),
                  options = opts, waiting = 0,
                  cleaner = NewTicker (ExpiryDuration opts),
                  heap = [], futures = [], parked = [], woken = [],
                  poolFunc = f\<rparr>)"

definition Running :: "'a Pool_scheme \<Rightarrow> int" where
  "Running p = running p"

definition Free :: "'a Pool_scheme \<Rightarrow> nat" where
  "Free p = wq_len (workers p)"

definition Cap :: "'a Pool_scheme \<Rightarrow> int" where
  "Cap p = capacity p"

definition Waiting :: "'a Pool_scheme \<Rightarrow> int" where
  "Waiting p = waiting p"

definition IsClosed :: "'a Pool_scheme \<Rightarrow> bool" where
  "IsClosed p = (state p = CLOSED)"

subsection \<open>The condition variable\<close>

definition cond_Signal :: "'a Pool_scheme \<Rightarrow> 'a Pool_scheme" where
  "cond_Signal p =
     (case parked p of [] \<Rightarrow> p
      | t # ts \<Rightarrow> p\<lparr>parked := ts, woken := woken p @ [t]\<rparr>)"

definition cond_Broadcast :: "'a Pool_scheme \<Rightarrow> 'a Pool_scheme" where
  "cond_Broadcast p = p\<lparr>parked := [], woken := woken p @ parked p\<rparr>"

subsection \<open>Acquiring a worker\<close>

text \<open>\<open>getWorker\<close> up to its return or to \<open>cond.Wait\<close>: a worker, \<open>nil\<close>, or the caller
  suspended. \<open>now\<close> is what \<open>time.Now\<close> returns. The creation of a worker, which the code
  carries out after it has released the lock, is one move with the test that allows
  it: the schedules here are those in which no other goroutine runs in between.\<close>

datatype acquired = Got nat | Nil | Wait

definition getWorker :: "int \<Rightarrow> 'a Pool_scheme \<Rightarrow> acquired \<times> 'a Pool_scheme" where
  "getWorker now p =
     (case wq_detach (workers p) of
        (Some w, wq) \<Rightarrow> (Got w, p\<lparr>workers := wq\<rparr>)
      | (None, wq) \<Rightarrow>
          if capacity p = -1 \<or> running p < capacity p
          then (Got (length (heap p)),
                p\<lparr>workers := wq,
                  heap := heap p @ [\<lparr>task = [], closed = False, lastUsed = now,
                                     recycled = 0, gor = Receiving\<rparr>],
                  running := running p + 1\<rparr>)
          else if Nonblocking (options p) then (Nil, p\<lparr>workers := wq\<rparr>)
          else (Wait, p\<lparr>workers := wq, waiting := waiting p + 1\<rparr>))"

text \<open>The rest of \<open>getWorker\<close>, run by a notified caller once it holds the lock again.\<close>

definition getWorker_resume :: "'a Pool_scheme \<Rightarrow> nat option \<times> 'a Pool_scheme" where
  "getWorker_resume p =
     (let p1 = p\<lparr>waiting := waiting p - 1\<rparr>
      in if state p1 = CLOSED then (None, p1)
         else case wq_detach (workers p1) of (w, wq) \<Rightarrow> (w, p1\<lparr>workers := wq\<rparr>))"

subsection \<open>Submission\<close>

text \<open>What a call has come to: it returned, its caller is suspended in \<open>cond.Wait\<close>, or
  its send could not go through. The send of the item to the worker's channel follows
  \<open>getWorker\<close> in the same move.\<close>

datatype outcome = Ret "error option" | Suspended | Stuck

definition hand_over :: "nat \<Rightarrow> callable option \<Rightarrow> 'a Pool_scheme \<Rightarrow> outcome \<times> 'a Pool_scheme" where
  "hand_over w t p =
     (case chan_send t (heap p ! w) of
        None \<Rightarrow> (Stuck, p)
      | Some w' \<Rightarrow> (Ret None, p\<lparr>heap := (heap p)[w := w']\<rparr>))"

definition Submit :: "int \<Rightarrow> callable option \<Rightarrow> 'a Pool_scheme \<Rightarrow> outcome \<times> 'a Pool_scheme" where
  "Submit now t p =
     (if IsClosed p then (Ret (Some ErrPoolClosed), p)
      else case getWorker now p of
        (Got w, p') \<Rightarrow> hand_over w t p'
      | (Nil, p') \<Rightarrow> (Ret (Some ErrPoolOverload), p')
      | (Wait, p') \<Rightarrow> (Suspended, p'\<lparr>parked := parked p' @ [t]\<rparr>))"

definition Invoke :: "int \<Rightarrow> callable option \<Rightarrow> 'a Pool_scheme \<Rightarrow> outcome \<times> 'a Pool_scheme" where
  "Invoke now args p =
     (if IsClosed p then (Ret (Some ErrPoolClosed), p)
      else case getWorker now p of
        (Got w, p') \<Rightarrow> hand_over w args p'
      | (Nil, p') \<Rightarrow> (Ret (Some ErrPoolOverload), p')
      | (Wait, p') \<Rightarrow> (Suspended, p'\<lparr>parked := parked p' @ [args]\<rparr>))"

text \<open>\<open>SubmitWithResult\<close> for a task that returns \<open>(r, e)\<close>; the future it returns is the
  index of the new future, \<open>None\<close> being \<open>nil\<close>.\<close>

definition SubmitWithResult ::
    "int \<Rightarrow> int option \<Rightarrow> string option \<Rightarrow> 'a Pool_scheme \<Rightarrow> (nat option \<times> outcome) \<times> 'a Pool_scheme" where
  "SubmitWithResult now r e p =
     (if IsClosed p then ((None, Ret (Some ErrPoolClosed)), p)
      else
        let i = length (futures p);
            p0 = p\<lparr>futures := futures p @ [newFuture]\<rparr>
        in case getWorker now p0 of
             (Got w, p') \<Rightarrow>
               (case hand_over w (Some (Wrapped i r e)) p' of
                  (Ret x, p'') \<Rightarrow> ((Some i, Ret x), p'')
                | (x, p'') \<Rightarrow> ((None, x), p''))
           | (Nil, p') \<Rightarrow> ((None, Ret (Some ErrPoolOverload)), p')
           | (Wait, p') \<Rightarrow> ((None, Suspended), p'\<lparr>parked := parked p' @ [Some (Wrapped i r e)]\<rparr>))"

text \<open>The oldest notified submitter gets the lock back and finishes its call.\<close>

definition Submit_resume :: "'a Pool_scheme \<Rightarrow> outcome option \<times> 'a Pool_scheme" where
  "Submit_resume p =
     (case woken p of
        [] \<Rightarrow> (None, p)
      | t # ts \<Rightarrow>
          (case getWorker_resume (p\<lparr>woken := ts\<rparr>) of
             (Some w, p') \<Rightarrow> (case hand_over w t p' of (x, p'') \<Rightarrow> (Some x, p''))
           | (None, p') \<Rightarrow> (Some (Ret (Some ErrPoolOverload)), p')))"

subsection \<open>Returning a worker\<close>

text \<open>\<open>putWorker\<close> has two parts: the check of \<open>state\<close> and the time stamp, outside the
  lock; then the insertion and the signal, under the lock. Other goroutines may run
  between the two.\<close>

definition set_worker :: "nat \<Rightarrow> goWorker \<Rightarrow> 'a Pool_scheme \<Rightarrow> 'a Pool_scheme" where
  "set_worker w v p = p\<lparr>heap := (heap p)[w := v]\<rparr>"

definition putWorker_stamp :: "int \<Rightarrow> nat \<Rightarrow> 'a Pool_scheme \<Rightarrow> bool \<times> 'a Pool_scheme" where
  "putWorker_stamp now worker p =
     (if state p = CLOSED then (False, p)
      else (True, set_worker worker ((heap p ! worker)\<lparr>lastUsed := now\<rparr>) p))"

definition putWorker_insert :: "nat \<Rightarrow> 'a Pool_scheme \<Rightarrow> bool \<times> 'a Pool_scheme" where
  "putWorker_insert worker p =
     (case wq_insert worker (workers p) of
        (Some e, wq) \<Rightarrow> (False, p)
      | (None, wq) \<Rightarrow>
          (True, if 0 < waiting p then cond_Signal (p\<lparr>workers := wq\<rparr>) else p\<lparr>workers := wq\<rparr>))"

text \<open>\<open>putWorker\<close> with nothing else running between its two parts.\<close>

definition putWorker :: "int \<Rightarrow> nat \<Rightarrow> 'a Pool_scheme \<Rightarrow> bool \<times> 'a Pool_scheme" where
  "putWorker now worker p =
     (case putWorker_stamp now worker p of
        (False, p') \<Rightarrow> (False, p')
      | (True, p') \<Rightarrow> putWorker_insert worker p')"

subsection \<open>The worker's goroutine\<close>

text \<open>The deferred function of \<open>run\<close>: one less running worker, then a signal.\<close>

definition worker_exit :: "nat \<Rightarrow> 'a Pool_scheme \<Rightarrow> 'a Pool_scheme" where
  "worker_exit w p =
     cond_Signal (set_worker w ((heap p ! w)\<lparr>gor := Exited\<rparr>) (p\<lparr>running := running p - 1\<rparr>))"

text \<open>After the task has returned: the first part of \<open>putWorker\<close>.\<close>

definition after_task :: "int \<Rightarrow> nat \<Rightarrow> 'a Pool_scheme \<Rightarrow> 'a Pool_scheme" where
  "after_task now w p =
     (case putWorker_stamp now w p of
        (False, p') \<Rightarrow> worker_exit w p'
      | (True, p') \<Rightarrow> set_worker w ((heap p' ! w)\<lparr>gor := Stamped\<rparr>) p')"

text \<open>One move of the goroutine of worker \<open>w\<close>: a receive at the loop head (a \<open>nil\<close> item
  or a closed and empty channel ends the goroutine; an open and empty one keeps it
  blocked), the run of the task, or the second part of \<open>putWorker\<close>.\<close>

definition worker_step :: "int \<Rightarrow> nat \<Rightarrow> 'a Pool_scheme \<Rightarrow> 'a Pool_scheme" where
  "worker_step now w p =
     (if length (heap p) \<le> w then p
      else case gor (heap p ! w) of
        Exited \<Rightarrow> p
      | Receiving \<Rightarrow>
          (case task (heap p ! w) of
             [] \<Rightarrow> if closed (heap p ! w) then worker_exit w p else p
           | t # ts \<Rightarrow>
               (case t of
                  None \<Rightarrow> worker_exit w (set_worker w ((heap p ! w)\<lparr>task := ts\<rparr>) p)
                | Some c \<Rightarrow> set_worker w ((heap p ! w)\<lparr>task := ts, gor := Executing c\<rparr>) p))
      | Executing c \<Rightarrow>
          (case c of
             Panics \<Rightarrow> worker_exit w p
           | Returns \<Rightarrow> after_task now w p
           | Wrapped i r e \<Rightarrow>
               after_task now w (p\<lparr>futures := (futures p)[i := setResult r e (futures p ! i)]\<rparr>))
      | Stamped \<Rightarrow>
          (case putWorker_insert w p of
             (True, p') \<Rightarrow> set_worker w ((heap p' ! w)\<lparr>gor := Receiving\<rparr>) p'
           | (False, p') \<Rightarrow> worker_exit w p'))"

subsection \<open>The sweeper, shutdown and restart\<close>

text \<open>One tick of \<open>cleanExpiredWorkers\<close>.\<close>

definition cleaner_tick :: "int \<Rightarrow> 'a Pool_scheme \<Rightarrow> 'a Pool_scheme" where
  "cleaner_tick now p =
     (if cleaner p \<noteq> Ticking then p
      else if state p = CLOSED then p\<lparr>cleaner := Stopped\<rparr>
      else case wq_refresh now (ExpiryDuration (options p)) (heap p) (workers p) of
        (expiredWorkers, wq, h) \<Rightarrow>
          let n = int (length expiredWorkers);
              p' = p\<lparr>workers := wq, heap := h\<rparr>
          in if 0 < n then p'\<lparr>running := running p' - n\<rparr> else p')"

text \<open>What \<open>Release\<close> does once its compare-and-swap has succeeded: the sweeper is told
  to stop and has returned, the store is reset, every waiter is notified.\<close>

definition teardown :: "'a Pool_scheme \<Rightarrow> 'a Pool_scheme" where
  "teardown p =
     (let p1 = p\<lparr>cleaner := Stopped\<rparr>
      in case wq_reset (heap p1) (workers p1) of
           (wq, h) \<Rightarrow> cond_Broadcast (p1\<lparr>workers := wq, heap := h\<rparr>))"

definition Release :: "'a Pool_scheme \<Rightarrow> 'a Pool_scheme" where
  "Release p = (if state p \<noteq> OPENED then p else teardown (p\<lparr>state := CLOSED\<rparr>))"

text \<open>\<open>fired\<close> says that the timer won the race against the teardown.\<close>

definition ReleaseTimeout :: "bool \<Rightarrow> 'a Pool_scheme \<Rightarrow> error option \<times> 'a Pool_scheme" where
  "ReleaseTimeout fired p =
     (if state p \<noteq> OPENED then (Some ErrPoolClosed, p)
      else (if fired then Some ErrTimeout else None, teardown (p\<lparr>state := CLOSED\<rparr>)))"

definition Reboot :: "'a Pool_scheme \<Rightarrow> 'a Pool_scheme" where
  "Reboot p =
     (if state p = CLOSED
      then p\<lparr>state := OPENED, cleaner := NewTicker (ExpiryDuration (options p))\<rparr>
      else p)"

subsection \<open>Schedules\<close>

text \<open>A schedule is a list of events: calls from outside, a notified submitter going on,
  a move of one worker's goroutine, a tick of the sweeper. \<open>run_events\<close> runs a schedule
  and collects what the calls came to.\<close>

datatype event =
  ESubmit int "callable option"
  | EInvoke int "callable option"
  | ESubmitWithResult int "int option" "string option"
  | EResume
  | EWorker int nat
  | ETick int
  | ERelease
  | EReleaseTimeout bool
  | EReboot

fun step :: "event \<Rightarrow> 'a Pool_scheme \<Rightarrow> outcome option \<times> 'a Pool_scheme" where
  "step (ESubmit now t) p = (case Submit now t p of (x, p') \<Rightarrow> (Some x, p'))"
| "step (EInvoke now t) p = (case Invoke now t p of (x, p') \<Rightarrow> (Some x, p'))"
| "step (ESubmitWithResult now r e) p =
     (case SubmitWithResult now r e p of ((f, x), p') \<Rightarrow> (Some x, p'))"
| "step EResume p = Submit_resume p"
| "step (EWorker now w) p = (None, worker_step now w p)"
| "step (ETick now) p = (None, cleaner_tick now p)"
| "step ERelease p = (None, Release p)"
| "step (EReleaseTimeout fired) p = (case ReleaseTimeout fired p of (e, p') \<Rightarrow> (Some (Ret e), p'))"
| "step EReboot p = (None, Reboot p)"

fun exec_events :: "event list \<Rightarrow> outcome list \<times> 'a Pool_scheme \<Rightarrow> outcome list \<times> 'a Pool_scheme" where
  "exec_events [] acc = acc"
| "exec_events (ev # evs) acc =
     exec_events evs
       (case fst (step ev (snd acc)) of None \<Rightarrow> fst acc | Some y \<Rightarrow> fst acc @ [y],
        snd (step ev (snd acc)))"

definition run_events :: "event list \<Rightarrow> 'a Pool_scheme \<Rightarrow> outcome list \<times> 'a Pool_scheme" where
  "run_events evs p = exec_events evs ([], p)"

text \<open>The clock reading of an event, if it takes one; a schedule is timed by a clock
  that never runs backwards.\<close>

fun event_time :: "event \<Rightarrow> int option" where
  "event_time (ESubmit now t) = Some now"
| "event_time (EInvoke now t) = Some now"
| "event_time (ESubmitWithResult now r e) = Some now"
| "event_time (EWorker now w) = Some now"
| "event_time (ETick now) = Some now"
| "event_time ev = None"

definition clock_ok :: "event list \<Rightarrow> bool" where
  "clock_ok evs = sorted (List.map_filter event_time evs)"

subsection \<open>Which store a pool has\<close>

definition uses_stack :: "workerQueue \<Rightarrow> bool" where
  "uses_stack wq = (case wq of Stack s \<Rightarrow> True | Loop q \<Rightarrow> False)"

definition uses_ring :: "workerQueue \<Rightarrow> bool" where
  "uses_ring wq = (case wq of Stack s \<Rightarrow> False | Loop q \<Rightarrow> True)"


section \<open>The order of the stack store, and concrete schedules\<close>

text \<open>The time stamps of a list of workers, and the order that the stack's \<open>refresh\<close>
  relies on: oldest first.\<close>

definition stamps :: "heap \<Rightarrow> nat list \<Rightarrow> int list" where
  "stamps h ws = map (\<lambda>w. lastUsed (h ! w)) ws"

definition sorted_idle :: "heap \<Rightarrow> workerStack \<Rightarrow> bool" where
  "sorted_idle h s = sorted (stamps h (s_items s))"

definition pool_sorted :: "'a Pool_scheme \<Rightarrow> bool" where
  "pool_sorted p = (case workers p of Stack s \<Rightarrow> sorted_idle (heap p) s | Loop q \<Rightarrow> True)"

text \<open>The pool that \<open>NewPool\<close> returns for a capacity below the threshold, an expiry
  duration and a blocking mode, written out.\<close>

definition new_pool :: "int \<Rightarrow> int \<Rightarrow> bool \<Rightarrow> Pool" where
  "new_pool c d nb =
     \<lparr>capacity = c, running = 0, state = 0,
      workers = Stack \<lparr>s_items = [], s_size = 0, s_expiry = []\<rparr>,
      options = \<lparr>ExpiryDuration = d, PreAlloc = False, MaxBlockingTasks = 0, Nonblocking = nb\<rparr>,
      waiting = 0, cleaner = Ticking, heap = [], futures = [], parked = [], woken = []\<rparr>"

text \<open>One task on one worker, which returns to the store at time 1; then, for an expiry
  duration of 10, the sweeper's ticks at 10 and at 20, and the worker's goroutine finding
  its channel closed.\<close>

definition sweep_sched :: "event list" where
  "sweep_sched =
     [ESubmit 0 (Some Returns), EWorker 0 0, EWorker 1 0, EWorker 1 0, ETick 10, ETick 20,
      EWorker 20 0]"

text \<open>A second submitter waits for the only worker, whose task panics.\<close>

definition panic_sched :: "event list" where
  "panic_sched =
     [ESubmit 0 (Some Panics), ESubmit 1 (Some Returns), EWorker 2 0, EWorker 3 0, EResume]"

text \<open>A second submitter waits for the only worker; the worker comes back and
  signals it; a third submitter takes the worker before the second one has the lock.\<close>

definition barge_sched :: "event list" where
  "barge_sched =
     [ESubmit 0 (Some Returns), ESubmit 1 (Some Returns), EWorker 2 0, EWorker 3 0, EWorker 3 0,
      ESubmit 4 (Some Returns), EResume]"

text \<open>Two workers finish their tasks: worker 0 takes its time stamp, then worker 1
  takes its own, later one and is inserted first.\<close>

definition race_sched :: "event list" where
  "race_sched =
     [ESubmit 0 (Some Returns), ESubmit 0 (Some Returns), EWorker 0 0, EWorker 0 1,
      EWorker 1 0, EWorker 2 1, EWorker 2 1, EWorker 2 0]"

text \<open>An idle worker last used at \<open>t\<close>.\<close>

definition idle_at :: "int \<Rightarrow> goWorker" where
  "idle_at t = \<lparr>task = [], closed = False, lastUsed = t, recycled = 0, gor = Receiving\<rparr>"

text \<open>The pool after a schedule.\<close>

definition after :: "event list \<Rightarrow> 'a Pool_scheme \<Rightarrow> 'a Pool_scheme" where
  "after evs p = snd (run_events evs p)"

text \<open>What the stack's order rests on at clock reading \<open>t\<close>: the idle workers are in
  order, they are objects of the heap, and none was stamped later than \<open>t\<close>.\<close>

definition stack_inv :: "int \<Rightarrow> 'a Pool_scheme \<Rightarrow> bool" where
  "stack_inv t p =
     (case workers p of
        Stack s \<Rightarrow>
          sorted_idle (heap p) s
          \<and> (\<forall>x \<in> set (s_items s). x < length (heap p) \<and> lastUsed (heap p ! x) \<le> t)
      | Loop q \<Rightarrow> True)"

text \<open>An idle worker as the store expects it: its goroutine waits at the loop head, its
  channel is open and empty. A store is in order when it holds no worker twice and each
  worker it holds is such an object of the heap.\<close>

definition ready :: "goWorker \<Rightarrow> bool" where
  "ready w = (gor w = Receiving \<and> task w = [] \<and> \<not> closed w)"

definition store_ok :: "'a Pool_scheme \<Rightarrow> bool" where
  "store_ok p =
     (distinct (wq_idle (workers p))
      \<and> (\<forall>w \<in> set (wq_idle (workers p)). w < length (heap p) \<and> ready (heap p ! w)))"

section \<open>Properties of the future\<close>

lemma setResult_once: "once f \<Longrightarrow> setResult r e f = f"
  by (simp add: setResult_def)

lemma history_done:
  "once f \<Longrightarrow> set (history f cs) = {f}"
  by (induction cs arbitrary: f) (auto simp: setResult_once)

lemma history_length: "length (history f cs) = Suc (length cs)"
  by (induction cs arbitrary: f) auto

lemma Get_blocking_all:
  "fs \<noteq> [] \<Longrightarrow> set fs \<subseteq> {f} \<Longrightarrow> Get f = Some c \<Longrightarrow> Get_blocking fs = Some c"
  by (cases fs) auto


text \<open>C4. Whatever the sequence of \<open>setResult\<close> calls on a new future, as long as it
  has a first call: an observer that calls \<open>Get\<close> at any point of the sequence (before
  the first call, between two calls, after the last) returns the pair of the first call;
  the state after each later call is the state after the first one, so later calls change
  nothing; and before the first call \<open>Get\<close> blocks, the latch being tripped by the first
  call only.\<close>

theorem future_single_shot:
  fixes calls :: "('a option \<times> 'e option) list"
  assumes "calls \<noteq> []" and "i \<le> length calls"
  shows "Get_blocking (drop i (history newFuture calls)) = Some (hd calls)
       \<and> (0 < i \<longrightarrow> history newFuture calls ! i = setResult (fst (hd calls)) (snd (hd calls)) newFuture)
       \<and> Get (newFuture :: ('a, 'e) future) = None
       \<and> Get (history newFuture calls ! length calls) = Some (hd calls)"
proof -
  obtain c cs where calls: "calls = c # cs" using assms(1) by (cases calls) auto
  define f1 where "f1 = setResult (fst c) (snd c) (newFuture :: ('a, 'e) future)"
  have o: "once f1" by (simp add: f1_def setResult_def newFuture_def)
  have g1: "Get f1 = Some c" by (simp add: f1_def setResult_def newFuture_def Get_def)
  have g0: "Get (newFuture :: ('a, 'e) future) = None" by (simp add: newFuture_def Get_def)
  have h: "history newFuture calls = newFuture # history f1 cs"
    by (simp add: calls f1_def)
  have all: "set (history f1 cs) = {f1}" using o by (rule history_done)
  have len: "length (history f1 cs) = Suc (length cs)" by (rule history_length)
  have nth: "history f1 cs ! j = f1" if "j \<le> length cs" for j
    using all len that by (metis le_imp_less_Suc nth_mem singletonD)
  have blk: "Get_blocking (drop j (history f1 cs)) = Some c" if "j \<le> length cs" for j
  proof (rule Get_blocking_all [OF _ _ g1])
    show "drop j (history f1 cs) \<noteq> []" using len that by simp
    show "set (drop j (history f1 cs)) \<subseteq> {f1}" using all set_drop_subset by fastforce
  qed
  have a: "Get_blocking (drop i (history newFuture calls)) = Some (hd calls)"
  proof (cases i)
    case 0
    then show ?thesis using blk [of 0] g0 unfolding h by (simp add: calls)
  next
    case (Suc j)
    then show ?thesis using blk [of j] assms(2) unfolding h by (simp add: calls)
  qed
  have b: "0 < i \<longrightarrow> history newFuture calls ! i = setResult (fst (hd calls)) (snd (hd calls)) newFuture"
  proof
    assume "0 < i"
    then obtain j where "i = Suc j" by (cases i) auto
    then show "history newFuture calls ! i = setResult (fst (hd calls)) (snd (hd calls)) newFuture"
      using nth [of j] assms(2) unfolding h f1_def by (simp add: calls)
  qed
  have d: "Get (history newFuture calls ! length calls) = Some (hd calls)"
    using nth [of "length cs"] g1 unfolding h by (simp add: calls)
  show ?thesis using a b g0 d by blast
qed

theorem future_single_shot_witness:
  "Get_blocking (drop 0 (history newFuture [(Some (42::int), None :: string option), (Some 7, Some ''late'')]))
     = Some (Some 42, None)
   \<and> Get_blocking (drop 2 (history newFuture [(Some (42::int), None :: string option), (Some 7, Some ''late'')]))
     = Some (Some 42, None)"
  using future_single_shot [of "[(Some (42::int), None :: string option), (Some 7, Some ''late'')]" 0]
    future_single_shot [of "[(Some (42::int), None :: string option), (Some 7, Some ''late'')]" 2]
  by simp


section \<open>Properties of construction\<close>

lemma int32_m1: "int32 (-1) = -1"
  by (simp add: int32_def)

text \<open>C6. \<open>NewPool\<close> produces a pool exactly when the size is not 0 and the expiry
  duration is not negative, \<open>NewPoolWithFunc\<close> exactly when moreover the callable is not
  \<open>nil\<close>; the checks are made in the order size, callable, expiry, and the error is the one
  of the first check that fails: \<open>ErrInvalidPoolSize\<close> for size 0, \<open>ErrInvalidPoolFunc\<close>
  for a \<open>nil\<close> callable, \<open>ErrInvalidPoolExpiry\<close> for a negative expiry duration. Size -1
  is accepted and gives capacity -1, with which \<open>getWorker\<close> always yields a worker.\<close>

theorem construction_validation:
  "((\<exists>p. NewPool sz fs = Inr p) \<longleftrightarrow> sz \<noteq> 0 \<and> 0 \<le> ExpiryDuration (NewOptions fs))
   \<and> (sz = 0 \<longrightarrow> NewPool sz fs = Inl ErrInvalidPoolSize)
   \<and> (sz \<noteq> 0 \<and> ExpiryDuration (NewOptions fs) < 0 \<longrightarrow> NewPool sz fs = Inl ErrInvalidPoolExpiry)
   \<and> ((\<exists>p. NewPoolWithFunc sz pf fs = Inr p) \<longleftrightarrow>
        sz \<noteq> 0 \<and> pf \<noteq> None \<and> 0 \<le> ExpiryDuration (NewOptions fs))
   \<and> (sz = 0 \<longrightarrow> NewPoolWithFunc sz pf fs = Inl ErrInvalidPoolSize)
   \<and> (sz \<noteq> 0 \<and> pf = None \<longrightarrow> NewPoolWithFunc sz pf fs = Inl ErrInvalidPoolFunc)
   \<and> (sz \<noteq> 0 \<and> pf \<noteq> None \<and> ExpiryDuration (NewOptions fs) < 0 \<longrightarrow>
        NewPoolWithFunc sz pf fs = Inl ErrInvalidPoolExpiry)
   \<and> (0 \<le> ExpiryDuration (NewOptions fs) \<longrightarrow>
        (\<exists>p. NewPool (-1) fs = Inr p \<and> Cap p = -1
            \<and> (\<forall>now q. capacity q = Cap p \<longrightarrow> (\<exists>w q'. getWorker now (q :: Pool) = (Got w, q')))))
   \<and> (0 \<le> ExpiryDuration (NewOptions fs) \<and> pf \<noteq> None \<longrightarrow>
        (\<exists>p. NewPoolWithFunc (-1) pf fs = Inr p \<and> Cap p = -1))"
  by (auto simp: NewPool_def NewPoolWithFunc_def Let_def Cap_def int32_m1 getWorker_def
      split: option.splits prod.splits)


theorem construction_validation_witness:
  "NewPool 0 [WithExpiryDuration (-1)] = Inl ErrInvalidPoolSize
   \<and> NewPool 5 [WithExpiryDuration (-1)] = Inl ErrInvalidPoolExpiry
   \<and> NewPoolWithFunc 0 (None :: nat option) [WithExpiryDuration (-1)] = Inl ErrInvalidPoolSize
   \<and> NewPoolWithFunc 5 (None :: nat option) [WithExpiryDuration (-1)] = Inl ErrInvalidPoolFunc
   \<and> NewPoolWithFunc 5 (Some (0::nat)) [WithExpiryDuration (-1)] = Inl ErrInvalidPoolExpiry
   \<and> (\<exists>p. NewPool (-1) [] = Inr p \<and> Cap p = -1)
   \<and> (\<exists>p. NewPool 5 [] = Inr p)"
  using construction_validation [of 0 "[WithExpiryDuration (-1)]" "None :: nat option"]
    construction_validation [of 5 "[WithExpiryDuration (-1)]" "None :: nat option"]
    construction_validation [of 5 "[WithExpiryDuration (-1)]" "Some (0::nat)"]
    construction_validation [of 5 "[]" "None :: nat option"]
  by (auto simp: NewOptions_def DefaultExpiryDuration_def)

text \<open>C8. For every size that construction accepts, of either pool: the store is the
  stack exactly when the size is -1 or below the threshold, the ring exactly when the size
  is at or above the threshold, and the threshold is 1000.\<close>

theorem store_selection:
  "(sz \<noteq> 0 \<and> 0 \<le> ExpiryDuration (NewOptions fs) \<longrightarrow>
      (\<exists>p. NewPool sz fs = Inr p
         \<and> (uses_stack (workers p) \<longleftrightarrow> sz = -1 \<or> sz < queueSizeThreshold)
         \<and> (uses_ring (workers p) \<longleftrightarrow> queueSizeThreshold \<le> sz)))
   \<and> (sz \<noteq> 0 \<and> pf \<noteq> None \<and> 0 \<le> ExpiryDuration (NewOptions fs) \<longrightarrow>
      (\<exists>p. NewPoolWithFunc sz pf fs = Inr p
         \<and> (uses_stack (workers p) \<longleftrightarrow> sz = -1 \<or> sz < queueSizeThreshold)
         \<and> (uses_ring (workers p) \<longleftrightarrow> queueSizeThreshold \<le> sz)))
   \<and> queueSizeThreshold = 1000"
  by (auto simp: NewPool_def NewPoolWithFunc_def Let_def uses_stack_def uses_ring_def
      queueSizeThreshold_def)

theorem store_selection_witness:
  "(\<exists>p. NewPool 999 [] = Inr p \<and> uses_stack (workers p) \<and> \<not> uses_ring (workers p))
   \<and> (\<exists>p. NewPool 1000 [] = Inr p \<and> \<not> uses_stack (workers p) \<and> uses_ring (workers p))
   \<and> (\<exists>p. NewPool (-1) [] = Inr p \<and> uses_stack (workers p) \<and> \<not> uses_ring (workers p))
   \<and> (\<exists>p. NewPoolWithFunc 1000 (Some (0::nat)) [] = Inr p \<and> \<not> uses_stack (workers p) \<and> uses_ring (workers p))"
proof -
  have d: "(0::int) \<le> ExpiryDuration (NewOptions [])"
    by (simp add: NewOptions_def DefaultExpiryDuration_def)
  have a: "\<exists>p. NewPool 999 [] = Inr p \<and> uses_stack (workers p) \<and> \<not> uses_ring (workers p)"
    using store_selection [of 999 "[]" "Some (0::nat)"] d
    by (simp add: queueSizeThreshold_def)
  have b: "(\<exists>p. NewPool 1000 [] = Inr p \<and> \<not> uses_stack (workers p) \<and> uses_ring (workers p))
     \<and> (\<exists>p. NewPoolWithFunc 1000 (Some (0::nat)) [] = Inr p \<and> \<not> uses_stack (workers p) \<and> uses_ring (workers p))"
    using store_selection [of 1000 "[]" "Some (0::nat)"] d
    by (simp add: queueSizeThreshold_def)
  have c: "\<exists>p. NewPool (-1) [] = Inr p \<and> uses_stack (workers p) \<and> \<not> uses_ring (workers p)"
    using store_selection [of "-1" "[]" "Some (0::nat)"] d
    by (simp add: queueSizeThreshold_def)
  show ?thesis using a b c by (intro conjI) (erule conjE, assumption)+
qed

text \<open>C9. An expiry duration of 0 passes the validation of both constructors, and the
  sweeper they start dies at once in \<open>time.NewTicker\<close>; the sweeper of a constructed
  pool is alive exactly when the expiry duration is positive.\<close>

theorem zero_expiry_accepted_and_sweeper_panics:
  "(sz \<noteq> 0 \<and> ExpiryDuration (NewOptions fs) = 0 \<longrightarrow>
      (\<exists>p. NewPool sz fs = Inr p \<and> cleaner p = Panicked))
   \<and> (sz \<noteq> 0 \<and> pf \<noteq> None \<and> ExpiryDuration (NewOptions fs) = 0 \<longrightarrow>
      (\<exists>p. NewPoolWithFunc sz pf fs = Inr p \<and> cleaner p = Panicked))
   \<and> (NewPool sz fs = Inr q \<longrightarrow>
        (cleaner q = Ticking \<longleftrightarrow> 0 < ExpiryDuration (options q))
        \<and> (cleaner q = Panicked \<longleftrightarrow> ExpiryDuration (options q) = 0))
   \<and> ExpiryDuration (NewOptions [WithExpiryDuration 0]) = 0"
  by (auto simp: NewPool_def NewPoolWithFunc_def Let_def NewTicker_def NewOptions_def
      split: if_splits)

theorem zero_expiry_accepted_and_sweeper_panics_witness:
  "(\<exists>p. NewPool 10 [WithExpiryDuration 0] = Inr p \<and> cleaner p = Panicked)
   \<and> (\<exists>p. NewPoolWithFunc 10 (Some (0::nat)) [WithExpiryDuration 0] = Inr p \<and> cleaner p = Panicked)"
  using zero_expiry_accepted_and_sweeper_panics [of 10 "[WithExpiryDuration 0]" "Some (0::nat)"]
  by (simp add: NewOptions_def)

section \<open>Evaluation of schedules\<close>

text \<open>The two scans, one rule per branch, for the evaluation of concrete stores.\<close>

lemma s_scan_step:
  "index < length xs \<and> lastUsed (h ! (xs ! index)) < expiryTime \<Longrightarrow>
     s_scan h xs expiryTime index = s_scan h xs expiryTime (index + 1)"
  by (subst s_scan.simps) simp

lemma s_scan_stop:
  "\<not> (index < length xs \<and> lastUsed (h ! (xs ! index)) < expiryTime) \<Longrightarrow>
     s_scan h xs expiryTime index = index"
  by (subst s_scan.simps) auto

lemma q_scan_empty:
  "q_isEmpty wq \<Longrightarrow> q_scan h expiryTime wq indices exp = (wq, indices, exp)"
  by (subst q_scan.simps) simp

lemma q_scan_nil:
  "\<not> q_isEmpty wq \<Longrightarrow> slot (q_items wq) (q_head wq) = None \<Longrightarrow>
     q_scan h expiryTime wq indices exp = (wq, indices, exp)"
  by (subst q_scan.simps) simp

lemma q_scan_fresh:
  "\<not> q_isEmpty wq \<Longrightarrow> slot (q_items wq) (q_head wq) = Some w \<Longrightarrow>
     expiryTime < lastUsed (h ! w) \<Longrightarrow>
     q_scan h expiryTime wq indices exp = (wq, indices, exp)"
  by (subst q_scan.simps) simp

lemma q_scan_step:
  "\<not> q_isEmpty wq \<Longrightarrow> slot (q_items wq) (q_head wq) = Some w \<Longrightarrow>
     \<not> expiryTime < lastUsed (h ! w) \<Longrightarrow>
     q_scan h expiryTime wq indices exp =
       q_scan h expiryTime
         (wq\<lparr>q_items := (q_items wq)[q_head wq := None],
             q_head := (if q_head wq + 1 = q_size wq then 0 else q_head wq + 1), isFull := False\<rparr>)
         (indices @ [q_head wq]) (exp @ [w])"
  by (subst q_scan.simps) (simp add: Let_def)

lemmas scan_rules = s_scan_step s_scan_stop q_scan_empty q_scan_nil q_scan_fresh q_scan_step

lemmas ev_defs = DefaultExpiryDuration_def NewOptions_def newFuture_def setResult_def
  workerChanCap_def recycle_def finish_def finish_at_def chan_send_def newWorkerStack_def
  s_len_def s_isEmpty_def s_insert_def s_detach_def s_refresh_def s_reset_def
  newWorkerLoopQueue_def q_len_def q_isEmpty_def q_insert_def slot_def q_detach_def
  q_refresh_def q_live_def q_reset_def CLOSED_def OPENED_def queueSizeThreshold_def NewTicker_def
  int32_def NewPool_def NewPoolWithFunc_def Running_def Free_def Cap_def Waiting_def IsClosed_def
  cond_Signal_def cond_Broadcast_def getWorker_def getWorker_resume_def hand_over_def Submit_def
  Invoke_def SubmitWithResult_def Submit_resume_def set_worker_def putWorker_stamp_def
  putWorker_insert_def putWorker_def worker_exit_def after_task_def worker_step_def
  cleaner_tick_def teardown_def Release_def ReleaseTimeout_def Reboot_def run_events_def
  clock_ok_def List.map_filter_def Let_def

section \<open>Properties of shutdown\<close>

lemma state_cond_Signal [simp]: "state (cond_Signal p) = state p"
  by (simp add: cond_Signal_def split: list.splits)

lemma state_set_worker [simp]: "state (set_worker w v p) = state p"
  by (simp add: set_worker_def)

lemma state_worker_exit [simp]: "state (worker_exit w p) = state p"
  by (simp add: worker_exit_def)

lemma state_putWorker_stamp [simp]: "state (snd (putWorker_stamp now w p)) = state p"
  by (simp add: putWorker_stamp_def)

lemma state_putWorker_insert [simp]: "state (snd (putWorker_insert w p)) = state p"
  by (simp add: putWorker_insert_def split: prod.splits option.splits)

lemma state_after_task [simp]: "state (after_task now w p) = state p"
proof -
  have "state (snd (putWorker_stamp now w p)) = state p" by simp
  then show ?thesis
    by (cases "putWorker_stamp now w p") (auto simp: after_task_def split: bool.splits)
qed

lemma state_worker_step [simp]: "state (worker_step now w p) = state p"
proof -
  have "state (snd (putWorker_insert w p)) = state p" by simp
  then show ?thesis
    by (cases "putWorker_insert w p")
      (auto simp: worker_step_def split: goroutine.splits list.splits option.splits
        callable.splits bool.splits)
qed

lemma state_cleaner_tick [simp]: "state (cleaner_tick now p) = state p"
  by (simp add: cleaner_tick_def Let_def split: prod.splits)

lemma state_getWorker_resume [simp]: "state (snd (getWorker_resume p)) = state p"
  by (simp add: getWorker_resume_def Let_def split: prod.splits)

lemma state_hand_over [simp]: "state (snd (hand_over w t p)) = state p"
  by (simp add: hand_over_def split: option.splits)

lemma state_Submit_resume [simp]: "state (snd (Submit_resume p)) = state p"
proof (cases "woken p")
  case Nil
  then show ?thesis by (simp add: Submit_resume_def)
next
  case (Cons t ts)
  obtain w p' where g: "getWorker_resume (p\<lparr>woken := ts\<rparr>) = (w, p')"
    by (cases "getWorker_resume (p\<lparr>woken := ts\<rparr>)")
  have s: "state p' = state p"
    using state_getWorker_resume [of "p\<lparr>woken := ts\<rparr>"] g by simp
  show ?thesis
  proof (cases w)
    case None
    then show ?thesis using Cons g s by (simp add: Submit_resume_def)
  next
    case (Some v)
    have "state (snd (hand_over v t p')) = state p" using s by simp
    then show ?thesis using Cons g Some
      by (cases "hand_over v t p'") (simp add: Submit_resume_def)
  qed
qed

lemma Submit_closed: "state p = CLOSED \<Longrightarrow> Submit now t p = (Ret (Some ErrPoolClosed), p)"
  by (simp add: Submit_def IsClosed_def)

lemma Invoke_closed: "state p = CLOSED \<Longrightarrow> Invoke now t p = (Ret (Some ErrPoolClosed), p)"
  by (simp add: Invoke_def IsClosed_def)

lemma SubmitWithResult_closed:
  "state p = CLOSED \<Longrightarrow> SubmitWithResult now r e p = ((None, Ret (Some ErrPoolClosed)), p)"
  by (simp add: SubmitWithResult_def IsClosed_def)

lemma Release_closed: "state p = CLOSED \<Longrightarrow> Release p = p"
  by (simp add: Release_def CLOSED_def OPENED_def)

lemma ReleaseTimeout_closed: "state p = CLOSED \<Longrightarrow> ReleaseTimeout fired p = (Some ErrPoolClosed, p)"
  by (simp add: ReleaseTimeout_def CLOSED_def OPENED_def)

lemma state_teardown [simp]: "state (teardown p) = state p"
  by (simp add: teardown_def cond_Broadcast_def Let_def split: prod.splits)

lemma Release_open: "state p = OPENED \<Longrightarrow> state (Release p) = CLOSED"
  by (simp add: Release_def)

lemma step_keeps_closed:
  "state p = CLOSED \<Longrightarrow> ev \<noteq> EReboot \<Longrightarrow> state (snd (step ev p)) = CLOSED"
  by (cases ev)
    (simp_all add: Submit_closed Invoke_closed SubmitWithResult_closed Release_closed
      ReleaseTimeout_closed)

lemma exec_keeps_closed:
  "state (snd acc) = CLOSED \<Longrightarrow> EReboot \<notin> set evs \<Longrightarrow> state (snd (exec_events evs acc)) = CLOSED"
proof (induction evs arbitrary: acc)
  case Nil
  then show ?case by simp
next
  case (Cons ev evs)
  have "state (snd (step ev (snd acc))) = CLOSED"
    using Cons.prems by (intro step_keeps_closed) auto
  then show ?case using Cons by simp
qed

text \<open>C5. From an open pool, once \<open>Release\<close> has returned the pool is closed, and it
  stays closed through every schedule that does not call \<open>Reboot\<close>: at each later point
  \<open>IsClosed\<close> holds, a call of \<open>Submit\<close>, \<open>Invoke\<close> or \<open>SubmitWithResult\<close> returns
  \<open>ErrPoolClosed\<close> and leaves the pool as it was (nothing is enqueued), and a further
  \<open>Release\<close> changes nothing, its compare-and-swap failing.\<close>

theorem release_closes_pool:
  assumes "state p = OPENED" and "EReboot \<notin> set evs"
  shows "IsClosed (Release p)
       \<and> IsClosed (snd (run_events evs (Release p)))
       \<and> Submit now t (snd (run_events evs (Release p)))
            = (Ret (Some ErrPoolClosed), snd (run_events evs (Release p)))
       \<and> Invoke now t (snd (run_events evs (Release p)))
            = (Ret (Some ErrPoolClosed), snd (run_events evs (Release p)))
       \<and> SubmitWithResult now r e (snd (run_events evs (Release p)))
            = ((None, Ret (Some ErrPoolClosed)), snd (run_events evs (Release p)))
       \<and> Release (snd (run_events evs (Release p))) = snd (run_events evs (Release p))
       \<and> Release (Release p) = Release p"
proof -
  have c0: "state (Release p) = CLOSED" using assms(1) by (rule Release_open)
  have c1: "state (snd (run_events evs (Release p))) = CLOSED"
    unfolding run_events_def using c0 assms(2) by (intro exec_keeps_closed) auto
  show ?thesis
    using c0 c1
    by (simp add: IsClosed_def Submit_closed Invoke_closed SubmitWithResult_closed Release_closed)
qed

theorem release_closes_pool_witness:
  "state (after (take 4 sweep_sched) (new_pool 2 10 False)) = OPENED
   \<and> EReboot \<notin> set [ESubmit 5 (Some Returns), ETick 30, ERelease, EResume]
   \<and> IsClosed (Release (after (take 4 sweep_sched) (new_pool 2 10 False)))
   \<and> fst (Submit 7 (Some Returns)
        (after [ESubmit 5 (Some Returns), ETick 30, ERelease, EResume]
           (Release (after (take 4 sweep_sched) (new_pool 2 10 False)))))
       = Ret (Some ErrPoolClosed)"
proof -
  have h1: "state (after (take 4 sweep_sched) (new_pool 2 10 False)) = OPENED"
    by (simp add: after_def sweep_sched_def new_pool_def ev_defs)
  have h2: "EReboot \<notin> set [ESubmit 5 (Some Returns), ETick 30, ERelease, EResume]"
    by simp
  show ?thesis
    using release_closes_pool [OF h1 h2, of 7 "Some Returns"] h1 h2
    by (simp add: after_def)
qed

section \<open>Properties of the schedules\<close>

text \<open>C1. The schedule \<open>sweep_sched\<close> on a pool of capacity 1: after the task the worker is
  idle and \<open>Running\<close> is 1, and the tick at 10 leaves it so; the tick at 20 reclaims that
  one worker and takes 1 off, giving 0;
  the reclaimed worker's goroutine then ends on its closed channel and its deferred
  function takes 1 off again. One reclaimed worker has lowered \<open>running\<close> by 2, and
  \<open>Running\<close> is -1, below 0.\<close>

theorem sweep_decrements_running_twice:
  "NewPool 1 [WithExpiryDuration 10] = Inr (new_pool 1 10 False)
   \<and> clock_ok sweep_sched
   \<and> Running (after (take 4 sweep_sched) (new_pool 1 10 False)) = 1
   \<and> Free (after (take 4 sweep_sched) (new_pool 1 10 False)) = 1
   \<and> Running (after (take 5 sweep_sched) (new_pool 1 10 False)) = 1
   \<and> Free (after (take 5 sweep_sched) (new_pool 1 10 False)) = 1
   \<and> Running (after (take 6 sweep_sched) (new_pool 1 10 False)) = 0
   \<and> Free (after (take 6 sweep_sched) (new_pool 1 10 False)) = 0
   \<and> Running (after sweep_sched (new_pool 1 10 False)) = -1
   \<and> Cap (after sweep_sched (new_pool 1 10 False)) = 1"
  by (simp add: after_def sweep_sched_def new_pool_def ev_defs scan_rules)

text \<open>C2. On a pool in blocking mode with capacity 1, three schedules in which a submitter
  that was suspended in \<open>cond.Wait\<close> is answered with \<open>ErrPoolOverload\<close>: the running task
  panics and the dying worker signals; another submitter takes the released worker before
  the notified one runs; the pool is released while the submitter waits. In the first two
  the pool stays open.\<close>

theorem blocking_submit_returns_overload:
  "NewPool 1 [] = Inr (new_pool 1 10000000000 False)
   \<and> \<not> Nonblocking (options (new_pool 1 10000000000 False))
   \<and> fst (run_events panic_sched (new_pool 1 10000000000 False))
       = [Ret None, Suspended, Ret (Some ErrPoolOverload)]
   \<and> \<not> IsClosed (after panic_sched (new_pool 1 10000000000 False))
   \<and> fst (run_events barge_sched (new_pool 1 10000000000 False))
       = [Ret None, Suspended, Ret None, Ret (Some ErrPoolOverload)]
   \<and> \<not> IsClosed (after barge_sched (new_pool 1 10000000000 False))
   \<and> fst (run_events [ESubmit 0 (Some Returns), ESubmit 1 (Some Returns), ERelease, EResume]
            (new_pool 1 10000000000 False))
       = [Ret None, Suspended, Ret (Some ErrPoolOverload)]"
  by (simp add: after_def panic_sched_def barge_sched_def new_pool_def ev_defs scan_rules)

text \<open>C3. A worker whose \<open>lastUsed\<close> is exactly \<open>now - d\<close>, neither before nor after it:
  the ring's \<open>refresh\<close> (which stops at the first worker used after \<open>now - d\<close>) removes
  it, the stack's \<open>refresh\<close> (which removes the workers used before \<open>now - d\<close>) keeps
  it.\<close>

theorem ring_refresh_removes_at_boundary:
  "lastUsed (idle_at 100) = 150 - 50
   \<and> fst (q_refresh 150 50 [idle_at 100] (snd (q_insert 0 (newWorkerLoopQueue 2)))) = [0]
   \<and> q_isEmpty (fst (snd (q_refresh 150 50 [idle_at 100] (snd (q_insert 0 (newWorkerLoopQueue 2))))))
   \<and> fst (s_refresh 150 50 [idle_at 100] (snd (s_insert 0 (newWorkerStack 0)))) = []
   \<and> s_len (fst (snd (s_refresh 150 50 [idle_at 100] (snd (s_insert 0 (newWorkerStack 0)))))) = 1"
  by (simp add: idle_at_def ev_defs scan_rules)

subsection \<open>The sweep of an ordered stack\<close>

lemma s_scan_takeWhile:
  "i \<le> length xs \<Longrightarrow> (\<forall>j<i. lastUsed (h ! (xs ! j)) < e) \<Longrightarrow>
     s_scan h xs e i = length (takeWhile (\<lambda>w. lastUsed (h ! w) < e) xs)"
proof (induction h xs e i rule: s_scan.induct)
  case (1 h xs e i)
  show ?case
  proof (cases "i < length xs \<and> lastUsed (h ! (xs ! i)) < e")
    case True
    have "\<forall>j<i + 1. lastUsed (h ! (xs ! j)) < e"
      using True "1.prems"(2) by (auto simp: less_Suc_eq)
    then have "s_scan h xs e (i + 1) = length (takeWhile (\<lambda>w. lastUsed (h ! w) < e) xs)"
      using True by (intro "1.IH") auto
    then show ?thesis using True by (simp add: s_scan_step)
  next
    case False
    have "takeWhile (\<lambda>w. lastUsed (h ! w) < e) xs = take i xs"
      using False "1.prems" by (intro takeWhile_eq_take_P_nth) auto
    then show ?thesis using False "1.prems"(1) by (simp add: s_scan_stop)
  qed
qed

lemma sorted_takeWhile_filter:
  "sorted (map f xs) \<Longrightarrow>
     takeWhile (\<lambda>x. f x < (e::int)) xs = filter (\<lambda>x. f x < e) xs
     \<and> dropWhile (\<lambda>x. f x < e) xs = filter (\<lambda>x. \<not> f x < e) xs"
proof (induction xs)
  case Nil
  then show ?case by simp
next
  case (Cons x xs)
  show ?case
  proof (cases "f x < e")
    case True
    then show ?thesis using Cons by simp
  next
    case False
    then have "\<forall>y \<in> set xs. \<not> f y < e" using Cons.prems by auto
    then show ?thesis using False by (simp add: filter_id_conv)
  qed
qed

text \<open>On a stack that is in order, \<open>refresh\<close> removes exactly the workers stamped before
  \<open>now - d\<close>, finishes them and keeps the others.\<close>

lemma s_refresh_exact_on_sorted:
  assumes "sorted_idle h s" and "s_refresh now d h s = (ix, s', h')"
  shows "s_items s' = filter (\<lambda>w. \<not> lastUsed (h ! w) < now - d) (s_items s)
       \<and> take (length ix) (s_items s) = filter (\<lambda>w. lastUsed (h ! w) < now - d) (s_items s)
       \<and> h' = foldl finish_at h (filter (\<lambda>w. lastUsed (h ! w) < now - d) (s_items s))"
proof -
  let ?P = "\<lambda>w. lastUsed (h ! w) < now - d"
  have n: "s_scan h (s_items s) (now - d) 0 = length (takeWhile ?P (s_items s))"
    by (rule s_scan_takeWhile) simp_all
  have tf: "takeWhile ?P (s_items s) = filter ?P (s_items s)"
    and df: "dropWhile ?P (s_items s) = filter (\<lambda>w. \<not> ?P w) (s_items s)"
    using assms(1) sorted_takeWhile_filter [of "\<lambda>w. lastUsed (h ! w)" "s_items s" "now - d"]
    by (simp_all add: sorted_idle_def stamps_def)
  have tk: "take (length (takeWhile ?P (s_items s))) (s_items s) = takeWhile ?P (s_items s)"
    by (simp add: takeWhile_eq_take [symmetric])
  have dr: "drop (length (takeWhile ?P (s_items s))) (s_items s) = dropWhile ?P (s_items s)"
    by (simp add: dropWhile_eq_drop [symmetric])
  show ?thesis
  proof (cases "takeWhile ?P (s_items s) = []")
    case True
    then have "ix = []" "s' = s" "h' = h"
      using assms(2) n by (auto simp: s_refresh_def Let_def split: if_splits)
    then show ?thesis using True tf df dr by simp
  next
    case False
    then have "ix = [0..<length (takeWhile ?P (s_items s))]"
      "s_items s' = drop (length (takeWhile ?P (s_items s))) (s_items s)"
      "h' = foldl finish_at h (take (length (takeWhile ?P (s_items s))) (s_items s))"
      using assms(2) n by (auto simp: s_refresh_def Let_def split: if_splits)
    then show ?thesis using tf df tk dr by simp
  qed
qed

section \<open>Properties of the stack order\<close>

text \<open>The order of C7, stated for every push, fails on \<open>race_sched\<close>, a schedule timed by
  a clock that never runs backwards: the store is in order until the last insertion,
  which puts worker 0, stamped at 1, behind worker 1, stamped at 2.\<close>

theorem stack_order_broken_by_interleaved_release:
  "NewPool 2 [] = Inr (new_pool 2 10000000000 False)
   \<and> clock_ok race_sched
   \<and> uses_stack (workers (after race_sched (new_pool 2 10000000000 False)))
   \<and> pool_sorted (after (take 7 race_sched) (new_pool 2 10000000000 False))
   \<and> wq_idle (workers (after race_sched (new_pool 2 10000000000 False))) = [1, 0]
   \<and> stamps (heap (after race_sched (new_pool 2 10000000000 False))) [1, 0] = [2, 1]
   \<and> \<not> pool_sorted (after race_sched (new_pool 2 10000000000 False))"
  by (simp add: after_def race_sched_def new_pool_def ev_defs scan_rules uses_stack_def
      stamps_def sorted_idle_def pool_sorted_def)

lemma stamps_Nil [simp]: "stamps h [] = []"
  by (simp add: stamps_def)

lemma stack_inv_cong:
  "workers q = workers p \<Longrightarrow> heap q = heap p \<Longrightarrow> stack_inv t q = stack_inv t p"
  by (cases "workers p") (simp_all add: stack_inv_def)

lemma stamps_snoc: "stamps h (xs @ [w]) = stamps h xs @ [lastUsed (h ! w)]"
  by (simp add: stamps_def)

lemma stamps_update_other: "w \<notin> set xs \<Longrightarrow> stamps (h[w := v]) xs = stamps h xs"
  by (induction xs) (auto simp: stamps_def)

lemma lastUsed_finish_at: "lastUsed (finish_at h w ! x) = lastUsed (h ! x)"
proof (cases "w < length h")
  case True
  then show ?thesis
    by (cases "x = w") (simp_all add: finish_at_def finish_def recycle_def)
next
  case False
  then show ?thesis by (simp add: finish_at_def list_update_beyond)
qed

lemma length_finish_all: "length (foldl finish_at h ws) = length h"
  by (induction ws arbitrary: h) (simp_all add: finish_at_def)

lemma lastUsed_finish_all: "lastUsed (foldl finish_at h ws ! x) = lastUsed (h ! x)"
  by (induction ws arbitrary: h) (simp_all add: lastUsed_finish_at)

lemma stamps_finish_all: "stamps (foldl finish_at h ws) xs = stamps h xs"
  by (simp add: stamps_def lastUsed_finish_all)

lemma stamps_drop: "stamps h (drop n xs) = drop n (stamps h xs)"
  by (simp add: stamps_def drop_map)

lemma stamps_take: "stamps h (take n xs) = take n (stamps h xs)"
  by (simp add: stamps_def take_map)

lemma sorted_idle_detach: "sorted_idle h s \<Longrightarrow> sorted_idle h (snd (s_detach s))"
  by (simp add: sorted_idle_def s_detach_def Let_def stamps_take sorted_wrt_take)

lemma sorted_idle_refresh:
  assumes "sorted_idle h s" and "s_refresh now d h s = (ix, s', h')"
  shows "sorted_idle h' s' \<and> set (s_items s') \<subseteq> set (s_items s)
       \<and> length h' = length h \<and> (\<forall>x. lastUsed (h' ! x) = lastUsed (h ! x))"
  using assms
  by (auto simp: s_refresh_def Let_def sorted_idle_def stamps_finish_all stamps_drop
      sorted_wrt_drop length_finish_all lastUsed_finish_all
      split: if_splits dest: in_set_dropD)

lemma stack_inv_mono: "stack_inv t p \<Longrightarrow> t \<le> t' \<Longrightarrow> stack_inv t' p"
  by (cases "workers p") (auto simp: stack_inv_def)

lemma stack_inv_sorted: "stack_inv t p \<Longrightarrow> pool_sorted p"
  by (cases "workers p") (auto simp: stack_inv_def pool_sorted_def)

lemma stack_inv_getWorker:
  assumes "stack_inv t p"
  shows "stack_inv t (snd (getWorker now p))"
proof (cases "workers p")
  case (Loop q)
  then show ?thesis
    by (auto simp: getWorker_def stack_inv_def split: prod.splits option.splits)
next
  case (Stack s)
  show ?thesis
  proof (cases "s_items s = []")
    case True
    then show ?thesis using Stack
      by (simp add: getWorker_def stack_inv_def s_detach_def sorted_idle_def stamps_def)
  next
    case False
    obtain w s' where w: "s_detach s = (Some w, s')"
      using False by (simp add: s_detach_def Let_def)
    have srt: "sorted_idle (heap p) s'"
      using assms Stack sorted_idle_detach [of "heap p" s] w by (simp add: stack_inv_def)
    have sub: "set (s_items s') \<subseteq> set (s_items s)"
      using w by (auto simp: s_detach_def Let_def split: if_splits dest: in_set_takeD)
    have "getWorker now p = (Got w, p\<lparr>workers := Stack s'\<rparr>)"
      using Stack w by (simp add: getWorker_def)
    then show ?thesis using srt sub assms Stack
      by (auto simp: stack_inv_def)
  qed
qed

lemma stack_inv_cleaner_tick:
  assumes "stack_inv t p"
  shows "stack_inv t (cleaner_tick now p)"
proof (cases "workers p")
  case (Loop q)
  then show ?thesis
    by (auto simp: cleaner_tick_def stack_inv_def Let_def split: prod.splits)
next
  case (Stack s)
  obtain ix s' h' where r: "s_refresh now (ExpiryDuration (options p)) (heap p) s = (ix, s', h')"
    by (cases "s_refresh now (ExpiryDuration (options p)) (heap p) s") auto
  have k: "sorted_idle h' s' \<and> set (s_items s') \<subseteq> set (s_items s)
       \<and> length h' = length (heap p) \<and> (\<forall>x. lastUsed (h' ! x) = lastUsed (heap p ! x))"
    using assms Stack by (intro sorted_idle_refresh [OF _ r]) (simp add: stack_inv_def)
  have inv': "stack_inv t (p\<lparr>workers := Stack s', heap := h'\<rparr>)"
    using k assms Stack by (auto simp: stack_inv_def)
  have inv'': "stack_inv t (p\<lparr>workers := Stack s', heap := h', running := n\<rparr>)" for n
    using inv' stack_inv_cong [of "p\<lparr>workers := Stack s', heap := h', running := n\<rparr>"
        "p\<lparr>workers := Stack s', heap := h'\<rparr>" t] by simp
  have invc: "stack_inv t (p\<lparr>cleaner := Stopped\<rparr>)"
    using assms stack_inv_cong [of "p\<lparr>cleaner := Stopped\<rparr>" p t] by simp
  show ?thesis
    using Stack r inv' inv'' invc assms
    by (simp add: cleaner_tick_def Let_def)
qed

lemma stack_inv_cond_Signal: "stack_inv t (cond_Signal p) = stack_inv t p"
  by (rule stack_inv_cong) (simp_all add: cond_Signal_def split: list.splits)

lemma stack_inv_putWorker:
  assumes "stack_inv t p" and "workers p = Stack s" and "t \<le> now"
    and "worker < length (heap p)" and "worker \<notin> set (s_items s)"
  shows "stack_inv now (snd (putWorker now worker p))"
proof (cases "state p = CLOSED")
  case True
  then show ?thesis using assms(1,3)
    by (simp add: putWorker_def putWorker_stamp_def stack_inv_mono)
next
  case False
  define h' where "h' = (heap p)[worker := (heap p ! worker)\<lparr>lastUsed := now\<rparr>]"
  define q where "q = p\<lparr>heap := h', workers := Stack (s\<lparr>s_items := s_items s @ [worker]\<rparr>)\<rparr>"
  have old: "stamps h' (s_items s) = stamps (heap p) (s_items s)"
    unfolding h'_def using assms(5) by (rule stamps_update_other)
  have new: "lastUsed (h' ! worker) = now"
    unfolding h'_def using assms(4) by simp
  have le: "\<forall>x \<in> set (s_items s). lastUsed (heap p ! x) \<le> now \<and> x < length (heap p)"
    using assms(1,2,3) by (auto simp: stack_inv_def)
  have le': "\<forall>y \<in> set (stamps (heap p) (s_items s)). y \<le> now"
    using le by (auto simp: stamps_def)
  have srt: "sorted (stamps (heap p) (s_items s))"
    using assms(1,2) by (simp add: stack_inv_def sorted_idle_def)
  have "sorted (stamps h' (s_items s @ [worker]))"
    using new srt le' by (simp add: stamps_snoc old sorted_append)
  moreover have "\<forall>x \<in> set (s_items s @ [worker]). x < length h' \<and> lastUsed (h' ! x) \<le> now"
  proof
    fix x assume x: "x \<in> set (s_items s @ [worker])"
    show "x < length h' \<and> lastUsed (h' ! x) \<le> now"
    proof (cases "x = worker")
      case True
      then show ?thesis using new assms(4) by (simp add: h'_def)
    next
      case False
      then have "x \<in> set (s_items s)" using x by simp
      then show ?thesis using le False by (simp add: h'_def)
    qed
  qed
  ultimately have inv: "stack_inv now q"
    by (simp add: q_def stack_inv_def sorted_idle_def)
  have "snd (putWorker now worker p) = q \<or> snd (putWorker now worker p) = cond_Signal q"
    using False assms(2)
    by (simp add: putWorker_def putWorker_stamp_def putWorker_insert_def set_worker_def
        s_insert_def q_def h'_def)
  then show ?thesis using inv by (auto simp: stack_inv_cond_Signal)
qed

text \<open>C7, as the code keeps it. Take a pool with the stack store in which, at clock
  reading \<open>t\<close>, the idle workers are in non-decreasing \<open>lastUsed\<close> order, are objects of
  the heap and carry no stamp later than \<open>t\<close>. Then this state is kept, and with it the
  order, by every pop (\<open>getWorker\<close>, which takes the tail or creates a worker), by every
  sweep (\<open>cleaner_tick\<close>), and by every push in which \<open>putWorker\<close> stamps and inserts
  with no other goroutine in between, at a clock reading \<open>now\<close> not before \<open>t\<close>, a worker
  that is not in the store.\<close>

theorem stack_order_preserved:
  assumes "workers p = Stack s" and "stack_inv t p"
  shows "pool_sorted p
       \<and> stack_inv t (snd (getWorker now p)) \<and> pool_sorted (snd (getWorker now p))
       \<and> stack_inv t (cleaner_tick now p) \<and> pool_sorted (cleaner_tick now p)
       \<and> (t \<le> now \<and> worker < length (heap p) \<and> worker \<notin> set (s_items s) \<longrightarrow>
            stack_inv now (snd (putWorker now worker p))
            \<and> pool_sorted (snd (putWorker now worker p)))"
  using assms stack_inv_getWorker [OF assms(2), of now] stack_inv_cleaner_tick [OF assms(2), of now]
    stack_inv_putWorker [OF assms(2) assms(1), of now worker]
  by (auto dest: stack_inv_sorted)

theorem stack_order_preserved_witness:
  "workers (after (take 5 race_sched @ [EWorker 1 0]) (new_pool 2 10000000000 False))
     = Stack \<lparr>s_items = [0], s_size = 0, s_expiry = []\<rparr>
   \<and> stack_inv 1 (after (take 5 race_sched @ [EWorker 1 0]) (new_pool 2 10000000000 False))
   \<and> (1::int) \<le> 5
   \<and> (1::nat) < length (heap (after (take 5 race_sched @ [EWorker 1 0]) (new_pool 2 10000000000 False)))
   \<and> (1::nat) \<notin> set (s_items \<lparr>s_items = [0], s_size = 0, s_expiry = []\<rparr>)
   \<and> pool_sorted (snd (putWorker 5 1
         (after (take 5 race_sched @ [EWorker 1 0]) (new_pool 2 10000000000 False))))
   \<and> pool_sorted (snd (getWorker 5
         (after (take 5 race_sched @ [EWorker 1 0]) (new_pool 2 10000000000 False))))
   \<and> pool_sorted (cleaner_tick 5
         (after (take 5 race_sched @ [EWorker 1 0]) (new_pool 2 10000000000 False)))"
proof -
  define P where "P = after (take 5 race_sched @ [EWorker 1 0]) (new_pool 2 10000000000 False)"
  have pv: "P = \<lparr>capacity = 2, running = 2, state = 0,
      workers = Stack \<lparr>s_items = [0], s_size = 0, s_expiry = []\<rparr>,
      options = \<lparr>ExpiryDuration = 10000000000, PreAlloc = False, MaxBlockingTasks = 0,
        Nonblocking = False\<rparr>,
      waiting = 0, cleaner = Ticking,
      heap = [\<lparr>task = [], closed = False, lastUsed = 1, recycled = 0, gor = Receiving\<rparr>,
              \<lparr>task = [], closed = False, lastUsed = 0, recycled = 0, gor = Executing Returns\<rparr>],
      futures = [], parked = [], woken = []\<rparr>"
    by (simp add: P_def after_def race_sched_def new_pool_def ev_defs)
  have h1: "workers P = Stack \<lparr>s_items = [0], s_size = 0, s_expiry = []\<rparr>"
    by (simp add: pv)
  have h2: "stack_inv 1 P"
    by (simp add: pv stack_inv_def sorted_idle_def stamps_def)
  have h3: "(1::int) \<le> 5 \<and> (1::nat) < length (heap P)
      \<and> (1::nat) \<notin> set (s_items \<lparr>s_items = [0], s_size = 0, s_expiry = []\<rparr>)"
    by (simp add: pv)
  show ?thesis
    using stack_order_preserved [OF h1 h2, of 5 1] h1 h2 h3
    unfolding P_def by simp
qed

section \<open>Properties of a nil submission\<close>

lemma Invoke_is_Submit: "Invoke now t p = Submit now t p"
  by (simp add: Invoke_def Submit_def)

lemma slots_member:
  "i < length xs \<Longrightarrow> xs ! i = Some w \<Longrightarrow> w \<in> set (List.map_filter (\<lambda>x. x) xs)"
proof (induction xs arbitrary: i)
  case Nil
  then show ?case by simp
next
  case (Cons a xs)
  then show ?case by (cases i) (auto simp: map_filter_simps split: option.splits)
qed

lemma slots_cleared_subset:
  "set (List.map_filter (\<lambda>x. x) (xs[i := None])) \<subseteq> set (List.map_filter (\<lambda>x. x) xs)"
proof (induction xs arbitrary: i)
  case Nil
  then show ?case by simp
next
  case (Cons a xs)
  show ?case
  proof (cases i)
    case 0
    then show ?thesis by (auto simp: map_filter_simps split: option.splits)
  next
    case (Suc j)
    then show ?thesis using Cons [of j] by (auto simp: map_filter_simps split: option.splits)
  qed
qed

lemma slots_cleared_absent:
  "i < length xs \<Longrightarrow> xs ! i = Some w \<Longrightarrow> distinct (List.map_filter (\<lambda>x. x) xs) \<Longrightarrow>
     w \<notin> set (List.map_filter (\<lambda>x. x) (xs[i := None]))"
proof (induction xs arbitrary: i)
  case Nil
  then show ?case by simp
next
  case (Cons a xs)
  show ?case
  proof (cases i)
    case 0
    then show ?thesis using Cons.prems by (simp add: map_filter_simps)
  next
    case (Suc j)
    have j: "j < length xs" "xs ! j = Some w" using Cons.prems Suc by simp_all
    have mem: "w \<in> set (List.map_filter (\<lambda>x. x) xs)" using j by (rule slots_member)
    show ?thesis
    proof (cases a)
      case None
      then show ?thesis using Cons.IH [OF j] Cons.prems(3) Suc by (simp add: map_filter_simps)
    next
      case (Some v)
      then have "v \<noteq> w" using Cons.prems(3) mem by (auto simp: map_filter_simps)
      then show ?thesis using Cons.IH [OF j] Cons.prems(3) Suc Some
        by (simp add: map_filter_simps)
    qed
  qed
qed

lemma wq_detach_subset:
  "wq_detach wq = (r, wq') \<Longrightarrow> set (wq_idle wq') \<subseteq> set (wq_idle wq)"
proof (cases wq)
  case (Stack s)
  assume "wq_detach wq = (r, wq')"
  then show ?thesis using Stack
    by (auto simp: s_detach_def Let_def split: if_splits dest: in_set_takeD)
next
  case (Loop q)
  assume "wq_detach wq = (r, wq')"
  then show ?thesis using Loop slots_cleared_subset [of "q_items q" "q_head q"]
    by (auto simp: q_detach_def Let_def split: if_splits)
qed

lemma wq_detach_Some:
  assumes "wq_detach wq = (Some w, wq')"
  shows "w \<in> set (wq_idle wq) \<and> (distinct (wq_idle wq) \<longrightarrow> w \<notin> set (wq_idle wq'))"
proof (cases wq)
  case (Stack s)
  have ne: "s_items s \<noteq> []" using assms Stack by (auto simp: s_detach_def Let_def split: if_splits)
  have w: "w = last (s_items s)" and r: "wq' = Stack (s\<lparr>s_items := butlast (s_items s)\<rparr>)"
    using assms Stack ne by (auto simp: s_detach_def Let_def last_conv_nth butlast_conv_take)
  have "distinct (s_items s) \<longrightarrow> last (s_items s) \<notin> set (butlast (s_items s))"
    using ne by (metis append_butlast_last_id distinct_butlast not_distinct_conv_prefix)
  then show ?thesis using Stack w r ne by simp
next
  case (Loop q)
  have s: "slot (q_items q) (q_head q) = Some w"
    and r: "wq' = Loop (q\<lparr>q_items := (q_items q)[q_head q := None],
              q_head := (if q_head q + 1 = q_size q then 0 else q_head q + 1), isFull := False\<rparr>)"
    using assms Loop by (auto simp: q_detach_def Let_def split: if_splits)
  have i: "q_head q < length (q_items q)" "q_items q ! q_head q = Some w"
    using s by (auto simp: slot_def split: if_splits)
  show ?thesis using Loop r slots_member [OF i] slots_cleared_absent [OF i] by simp
qed

lemma getWorker_Got:
  assumes "store_ok p" and "getWorker now p = (Got w, p1)"
  shows "w < length (heap p1) \<and> ready (heap p1 ! w) \<and> w \<notin> set (wq_idle (workers p1))"
proof -
  obtain r wq' where d: "wq_detach (workers p) = (r, wq')" by (cases "wq_detach (workers p)")
  have sub: "set (wq_idle wq') \<subseteq> set (wq_idle (workers p))" using d by (rule wq_detach_subset)
  show ?thesis
  proof (cases r)
    case (Some v)
    then have "w = v" "p1 = p\<lparr>workers := wq'\<rparr>" using assms(2) d by (auto simp: getWorker_def)
    then show ?thesis using wq_detach_Some [of "workers p" v wq'] d Some assms(1)
      by (auto simp: store_ok_def)
  next
    case None
    then have w: "w = length (heap p)" and h: "heap p1 = heap p @
        [\<lparr>task = [], closed = False, lastUsed = now, recycled = 0, gor = Receiving\<rparr>]"
      and ws: "workers p1 = wq'"
      using assms(2) d by (auto simp: getWorker_def split: if_splits)
    have "w \<notin> set (wq_idle wq')" using sub assms(1) w by (auto simp: store_ok_def)
    then show ?thesis using w h ws by (simp add: ready_def)
  qed
qed

text \<open>C10. On an open pool whose store is in order and on which \<open>getWorker\<close> yields a
  worker \<open>w\<close>: \<open>Submit\<close> with a \<open>nil\<close> callable, and likewise \<open>Invoke\<close> with a \<open>nil\<close>
  argument, returns \<open>nil\<close> (success) and leaves the \<open>nil\<close> in the inbox of \<open>w\<close>. The next
  move of that worker's goroutine reads it as the order to stop: the goroutine ends at
  once, no task is run and no future is touched, \<open>running\<close> goes down by one, the store is
  as before and does not hold \<open>w\<close>, and nothing that the goroutine does later changes
  the pool, so \<open>w\<close> never comes back.\<close>

theorem nil_submission_retires_worker:
  assumes "\<not> IsClosed p" and "store_ok p" and "fst (getWorker now p) = Got w"
  shows "\<exists>p2. Submit now None p = (Ret None, p2) \<and> Invoke now None p = (Ret None, p2)
           \<and> task (heap p2 ! w) = [None]
           \<and> gor (heap (worker_step now' w p2) ! w) = Exited
           \<and> running (worker_step now' w p2) = running p2 - 1
           \<and> workers (worker_step now' w p2) = workers p2
           \<and> w \<notin> set (wq_idle (workers (worker_step now' w p2)))
           \<and> futures (worker_step now' w p2) = futures p2
           \<and> worker_step now'' w (worker_step now' w p2) = worker_step now' w p2"
proof -
  obtain p1 where g: "getWorker now p = (Got w, p1)"
    using assms(3) by (cases "getWorker now p") auto
  have k: "w < length (heap p1)" "ready (heap p1 ! w)" "w \<notin> set (wq_idle (workers p1))"
    using getWorker_Got [OF assms(2) g] by simp_all
  define v where "v = (heap p1 ! w)\<lparr>task := [None]\<rparr>"
  define p2 where "p2 = p1\<lparr>heap := (heap p1)[w := v]\<rparr>"
  have send: "chan_send None (heap p1 ! w) = Some v"
    using k(2) by (simp add: chan_send_def ready_def workerChanCap_def v_def)
  have sub: "Submit now None p = (Ret None, p2)"
    using assms(1) g send by (simp add: Submit_def hand_over_def p2_def)
  have hw: "heap p2 ! w = v" "w < length (heap p2)" using k(1) by (simp_all add: p2_def)
  have vw: "gor v = Receiving" "task v = [None]"
    using k(2) by (simp_all add: v_def ready_def)
  define p3 where "p3 = worker_exit w (set_worker w (v\<lparr>task := []\<rparr>) p2)"
  have st: "worker_step now' w p2 = p3"
    using hw vw by (simp add: worker_step_def p3_def)
  have p3h: "heap p3 = (heap p2)[w := v\<lparr>task := [], gor := Exited\<rparr>]"
    and p3r: "running p3 = running p2 - 1" and p3w: "workers p3 = workers p2"
    and p3f: "futures p3 = futures p2"
    using hw by (simp_all add: p3_def worker_exit_def set_worker_def cond_Signal_def split: list.splits)
  have ex: "gor (heap p3 ! w) = Exited" using p3h hw by simp
  have len3: "w < length (heap p3)" using p3h hw by simp
  have again: "worker_step now'' w p3 = p3" using ex len3 by (simp add: worker_step_def)
  have "w \<notin> set (wq_idle (workers p3))" using p3w k(3) by (simp add: p2_def)
  then show ?thesis
    using sub hw vw st p3r p3w p3f ex again by (auto simp: Invoke_is_Submit)
qed

theorem nil_submission_retires_worker_witness:
  "\<not> IsClosed (after (take 4 sweep_sched) (new_pool 2 10 False))
   \<and> store_ok (after (take 4 sweep_sched) (new_pool 2 10 False))
   \<and> fst (getWorker 5 (after (take 4 sweep_sched) (new_pool 2 10 False))) = Got 0
   \<and> (\<exists>p2. Submit 5 None (after (take 4 sweep_sched) (new_pool 2 10 False)) = (Ret None, p2)
         \<and> gor (heap (worker_step 6 0 p2) ! 0) = Exited
         \<and> running (worker_step 6 0 p2) = running p2 - 1
         \<and> 0 \<notin> set (wq_idle (workers (worker_step 6 0 p2))))"
proof -
  define P where "P = after (take 4 sweep_sched) (new_pool 2 10 False)"
  have pv: "P = \<lparr>capacity = 2, running = 1, state = 0,
      workers = Stack \<lparr>s_items = [0], s_size = 0, s_expiry = []\<rparr>,
      options = \<lparr>ExpiryDuration = 10, PreAlloc = False, MaxBlockingTasks = 0,
        Nonblocking = False\<rparr>,
      waiting = 0, cleaner = Ticking,
      heap = [\<lparr>task = [], closed = False, lastUsed = 1, recycled = 0, gor = Receiving\<rparr>],
      futures = [], parked = [], woken = []\<rparr>"
    by (simp add: P_def after_def sweep_sched_def new_pool_def ev_defs)
  have h1: "\<not> IsClosed P" by (simp add: pv IsClosed_def CLOSED_def)
  have h2: "store_ok P" by (simp add: pv store_ok_def ready_def)
  have h3: "fst (getWorker 5 P) = Got 0" by (simp add: pv getWorker_def s_detach_def)
  show ?thesis
    using nil_submission_retires_worker [OF h1 h2 h3, of 6 7] h1 h2 h3
    unfolding P_def by blast
qed

end
